theory Spec2Isabelle
  imports Main
begin

unbundle bit_operations_syntax

section \<open>The Circuit Playground base class\<close>

text \<open>
  A model of \<^verbatim>\<open>circuit_playground_base.py\<close>: the class \<^verbatim>\<open>Photocell\<close> and the class
  \<^verbatim>\<open>CircuitPlaygroundBase\<close> with its touch slots, its threshold adjustment and its
  tap-detection mode. The peripheral drivers (\<^verbatim>\<open>touchio\<close>, \<^verbatim>\<open>analogio\<close>, \<^verbatim>\<open>digitalio\<close>,
  \<^verbatim>\<open>gamepad\<close>, \<^verbatim>\<open>adafruit_lis3dh\<close>) are libraries outside the module: what they answer is
  a parameter of every operation, and every call an operation makes to one of them is
  returned in a log, next to the operation's value and the object's new state.
\<close>

subsection \<open>Data\<close>

text \<open>The seven touch-capable pins of \<^verbatim>\<open>board\<close> that \<^verbatim>\<open>__init__\<close> stores.\<close>

datatype pin = A1 | A2 | A3 | A4 | A5 | A6 | TX

text \<open>
  An element of the list \<^verbatim>\<open>self._touches\<close>: \<^verbatim>\<open>None\<close>, a pin, or a \<^verbatim>\<open>touchio.TouchIn\<close>
  object. Each \<^verbatim>\<open>TouchIn\<close> object is created by \<^verbatim>\<open>_touch\<close> for one slot and is referenced
  from that slot only, so it is kept by value: its pin and its \<^verbatim>\<open>threshold\<close> attribute,
  a Python integer.
\<close>

datatype slot = None_slot | Pin pin | TouchIn pin int

text \<open>
  The attributes of \<^verbatim>\<open>CircuitPlaygroundBase\<close> that its methods assign:
  \<^verbatim>\<open>_touches\<close>, \<^verbatim>\<open>_touch_threshold_adjustment\<close> and \<^verbatim>\<open>_detect_taps\<close>.
\<close>

record cp =
  touches :: "slot list"
  touch_threshold_adjustment :: int
  detect_taps :: int

text \<open>
  What the drivers answer at the moment of a call: the threshold a new \<^verbatim>\<open>TouchIn\<close>
  on a pin starts with, the \<^verbatim>\<open>value\<close> of a \<^verbatim>\<open>TouchIn\<close> on a pin with a given threshold,
  the \<^verbatim>\<open>value\<close> of the photocell's \<^verbatim>\<open>AnalogIn\<close>, the result of \<^verbatim>\<open>gamepad.get_pressed()\<close>,
  the \<^verbatim>\<open>value\<close> of the two buttons, of the slide switch and of the red LED, and the
  accelerometer's \<^verbatim>\<open>tapped\<close> and \<^verbatim>\<open>shake\<close>. The floating-point readings (acceleration,
  temperature) are handed on as the drivers give them and are not represented.
\<close>

record hardware =
  TouchIn_threshold :: "pin \<Rightarrow> int"
  TouchIn_value :: "pin \<Rightarrow> int \<Rightarrow> bool"
  AnalogIn_value :: int
  GamePad_get_pressed :: int
  button_a_value :: bool
  button_b_value :: bool
  switch_value :: bool
  led_value :: bool
  lis3dh_tapped :: bool
  lis3dh_shake :: "int \<Rightarrow> bool"

text \<open>
  The calls to drivers. \<^verbatim>\<open>LIS3DH_set_tap\<close> carries the five arguments of
  \<^verbatim>\<open>set_tap(tap, threshold, time_limit=, time_latency=, time_window=)\<close> in this order.
\<close>

datatype call =
    TouchIn_new pin
  | TouchIn_set_threshold pin int
  | TouchIn_get_value pin
  | LIS3DH_set_range_8_G
  | LIS3DH_set_tap int int int int int
  | LIS3DH_get_tapped
  | LIS3DH_shake int
  | LIS3DH_get_acceleration
  | Thermistor_get_temperature
  | AnalogIn_get_value
  | GamePad_poll
  | DigitalInOut_get_value string
  | DigitalInOut_set_value string bool

text \<open>
  The exceptions: \<^verbatim>\<open>IndexError\<close> of a list subscript out of range, and \<^verbatim>\<open>TypeError\<close>
  of \<^verbatim>\<open>touchio.TouchIn\<close> handed \<^verbatim>\<open>None\<close> instead of a pin.
\<close>

datatype error = IndexError | TypeError

text \<open>
  The values the properties and methods return; \<open>RDriver\<close> stands for a value that a
  driver gave and the class hands on untouched (a float, a tuple of floats, the
  \<^verbatim>\<open>NeoPixel\<close> object).
\<close>

datatype ret = RBool bool | RInt int | RSet "string set" | RNone | RDriver

subsection \<open>Photocell\<close>

text \<open>\<^verbatim>\<open>return self._photocell.value * 330 // (2 ** 16)\<close>; \<^verbatim>\<open>//\<close> rounds down, as \<open>div\<close> does.\<close>

definition Photocell_light :: "int \<Rightarrow> int" where
  "Photocell_light photocell_value = photocell_value * 330 div (2 ^ 16)"

subsection \<open>Construction\<close>

definition initial_touches :: "slot list" where
  "initial_touches = [None_slot, Pin A1, Pin A2, Pin A3, Pin A4, Pin A5, Pin A6, Pin TX]"

subsection \<open>Tap detection\<close>

definition detect_taps_getter :: "cp \<Rightarrow> int" where
  "detect_taps_getter s = detect_taps s"

text \<open>
  The setter stores the value, then makes one \<^verbatim>\<open>set_tap\<close> call under each of its two
  \<^verbatim>\<open>if\<close> statements whose test holds. The value is a Python integer, which is what the
  docstring asks for (\<^verbatim>\<open>1\<close> or \<^verbatim>\<open>2\<close>).
\<close>

definition detect_taps_setter :: "int \<Rightarrow> cp \<Rightarrow> call list \<times> cp" where
  "detect_taps_setter v s =
     ((if v = 1 then [LIS3DH_set_tap v 90 4 50 255] else []) @
      (if v = 2 then [LIS3DH_set_tap v 60 10 50 255] else []),
      s\<lparr>detect_taps := v\<rparr>)"

text \<open>
  \<^verbatim>\<open>__init__\<close>: the touch table, the adjustment 0, the accelerometer's range, and
  \<^verbatim>\<open>self._detect_taps = 1\<close> followed by \<^verbatim>\<open>self.detect_taps = 1\<close>, which runs the setter.
  The log holds the calls to the accelerometer; no \<^verbatim>\<open>TouchIn\<close> is created here.
\<close>

definition init :: "call list \<times> cp" where
  "init =
     (let s0 = \<lparr>touches = initial_touches, touch_threshold_adjustment = 0, detect_taps = 1\<rparr>;
          (cs, s1) = detect_taps_setter 1 s0
      in (LIS3DH_set_range_8_G # cs, s1))"

subsection \<open>Touch\<close>

text \<open>
  A list subscript \<^verbatim>\<open>xs[i]\<close>: a negative index counts from the end, and an index
  outside the list raises \<^verbatim>\<open>IndexError\<close>.
\<close>

definition subscript :: "'a list \<Rightarrow> int \<Rightarrow> error + nat" where
  "subscript xs i =
     (if 0 \<le> i \<and> i < int (length xs) then Inr (nat i)
      else if i < 0 \<and> - int (length xs) \<le> i then Inr (nat (int (length xs) + i))
      else Inl IndexError)"

text \<open>
  \<^verbatim>\<open>_touch(i)\<close>. A slot that holds a \<^verbatim>\<open>TouchIn\<close> is only read. Any other slot is
  replaced by a new \<^verbatim>\<open>TouchIn\<close> on what it holds, whose threshold is increased by the
  adjustment so far, and then read; the slot that holds \<^verbatim>\<open>None\<close> makes the constructor
  raise, before anything is assigned.
\<close>

definition touch :: "hardware \<Rightarrow> int \<Rightarrow> cp \<Rightarrow> error + (bool \<times> call list \<times> cp)" where
  "touch hw i s =
     (case subscript (touches s) i of
        Inl e \<Rightarrow> Inl e
      | Inr k \<Rightarrow>
          (case touches s ! k of
             TouchIn p t \<Rightarrow> Inr (TouchIn_value hw p t, [TouchIn_get_value p], s)
           | Pin p \<Rightarrow>
               (let t = TouchIn_threshold hw p + touch_threshold_adjustment s
                in Inr (TouchIn_value hw p t,
                        [TouchIn_new p, TouchIn_set_threshold p t, TouchIn_get_value p],
                        s\<lparr>touches := (touches s)[k := TouchIn p t]\<rparr>))
           | None_slot \<Rightarrow> Inl TypeError))"

definition touch_A1 :: "hardware \<Rightarrow> cp \<Rightarrow> error + (bool \<times> call list \<times> cp)" where
  "touch_A1 hw s = touch hw 1 s"

definition touch_A2 :: "hardware \<Rightarrow> cp \<Rightarrow> error + (bool \<times> call list \<times> cp)" where
  "touch_A2 hw s = touch hw 2 s"

definition touch_A3 :: "hardware \<Rightarrow> cp \<Rightarrow> error + (bool \<times> call list \<times> cp)" where
  "touch_A3 hw s = touch hw 3 s"

definition touch_A4 :: "hardware \<Rightarrow> cp \<Rightarrow> error + (bool \<times> call list \<times> cp)" where
  "touch_A4 hw s = touch hw 4 s"

definition touch_A5 :: "hardware \<Rightarrow> cp \<Rightarrow> error + (bool \<times> call list \<times> cp)" where
  "touch_A5 hw s = touch hw 5 s"

definition touch_A6 :: "hardware \<Rightarrow> cp \<Rightarrow> error + (bool \<times> call list \<times> cp)" where
  "touch_A6 hw s = touch hw 6 s"

definition touch_TX :: "hardware \<Rightarrow> cp \<Rightarrow> error + (bool \<times> call list \<times> cp)" where
  "touch_TX hw s = touch hw 7 s"

text \<open>
  \<^verbatim>\<open>adjust_touch_threshold\<close>: the loop over \<^verbatim>\<open>self._touches\<close> adds the adjustment to the
  threshold of every \<^verbatim>\<open>TouchIn\<close> it meets and passes over the other elements; then the
  adjustment is added to \<^verbatim>\<open>self._touch_threshold_adjustment\<close>.
\<close>

fun adjust_loop :: "int \<Rightarrow> slot list \<Rightarrow> call list \<times> slot list" where
  "adjust_loop adjustment [] = ([], [])"
| "adjust_loop adjustment (TouchIn p t # rest) =
     (let (cs, rest') = adjust_loop adjustment rest
      in (TouchIn_set_threshold p (t + adjustment) # cs, TouchIn p (t + adjustment) # rest'))"
| "adjust_loop adjustment (x # rest) =
     (let (cs, rest') = adjust_loop adjustment rest in (cs, x # rest'))"

definition adjust_touch_threshold :: "int \<Rightarrow> cp \<Rightarrow> call list \<times> cp" where
  "adjust_touch_threshold adjustment s =
     (let (cs, ts) = adjust_loop adjustment (touches s)
      in (cs, s\<lparr>touches := ts,
                touch_threshold_adjustment := touch_threshold_adjustment s + adjustment\<rparr>))"

subsection \<open>Buttons\<close>

text \<open>
  \<^verbatim>\<open>were_pressed\<close>: the loop over \<^verbatim>\<open>(('A', 0x01), ('B', 0x02))\<close> adds a button's name
  when \<^verbatim>\<open>mask & pressed\<close> is not zero.
\<close>

fun were_pressed_loop :: "(string \<times> int) list \<Rightarrow> int \<Rightarrow> string set \<Rightarrow> string set" where
  "were_pressed_loop [] pressed ret = ret"
| "were_pressed_loop ((button, bitmask) # rest) pressed ret =
     were_pressed_loop rest pressed
       (if bitmask AND pressed \<noteq> 0 then insert button ret else ret)"

definition were_pressed :: "hardware \<Rightarrow> string set" where
  "were_pressed hw =
     were_pressed_loop [(''A'', 1), (''B'', 2)] (GamePad_get_pressed hw) {}"

subsection \<open>Sequences of operations\<close>

text \<open>
  The operations of the facade: the touch pads (by slot index), the threshold
  adjustment, the tap mode written and read, the sensors, the red LED and the pixels.
\<close>

datatype op =
    Touch int
  | Adjust_touch_threshold int
  | Set_detect_taps int
  | Get_detect_taps
  | Tapped
  | Acceleration
  | Shake int
  | Pixels
  | Button_a
  | Button_b
  | Were_pressed
  | Switch
  | Temperature
  | Light
  | Red_led
  | Set_red_led bool

fun exec :: "hardware \<Rightarrow> op \<Rightarrow> cp \<Rightarrow> error + (ret \<times> call list \<times> cp)" where
  "exec hw (Touch i) s =
     (case touch hw i s of Inl e \<Rightarrow> Inl e | Inr (b, cs, s') \<Rightarrow> Inr (RBool b, cs, s'))"
| "exec hw (Adjust_touch_threshold a) s =
     (let (cs, s') = adjust_touch_threshold a s in Inr (RNone, cs, s'))"
| "exec hw (Set_detect_taps v) s =
     (let (cs, s') = detect_taps_setter v s in Inr (RNone, cs, s'))"
| "exec hw Get_detect_taps s = Inr (RInt (detect_taps_getter s), [], s)"
| "exec hw Tapped s = Inr (RBool (lis3dh_tapped hw), [LIS3DH_get_tapped], s)"
| "exec hw Acceleration s = Inr (RDriver, [LIS3DH_get_acceleration], s)"
| "exec hw (Shake th) s = Inr (RBool (lis3dh_shake hw th), [LIS3DH_shake th], s)"
| "exec hw Pixels s = Inr (RDriver, [], s)"
| "exec hw Button_a s = Inr (RBool (button_a_value hw), [DigitalInOut_get_value ''BUTTON_A''], s)"
| "exec hw Button_b s = Inr (RBool (button_b_value hw), [DigitalInOut_get_value ''BUTTON_B''], s)"
| "exec hw Were_pressed s = Inr (RSet (were_pressed hw), [GamePad_poll], s)"
| "exec hw Switch s = Inr (RBool (switch_value hw), [DigitalInOut_get_value ''SLIDE_SWITCH''], s)"
| "exec hw Temperature s = Inr (RDriver, [Thermistor_get_temperature], s)"
| "exec hw Light s = Inr (RInt (Photocell_light (AnalogIn_value hw)), [AnalogIn_get_value], s)"
| "exec hw Red_led s = Inr (RBool (led_value hw), [DigitalInOut_get_value ''D13''], s)"
| "exec hw (Set_red_led v) s = Inr (RNone, [DigitalInOut_set_value ''D13'' v], s)"

text \<open>
  A sequence of operations, each with what the drivers answer while it runs. An
  operation that raises leaves the object as it was (every raise of \<^verbatim>\<open>_touch\<close> comes
  before its first assignment), and the caller goes on with the next one.
\<close>

fun run :: "(hardware \<times> op) list \<Rightarrow> call list \<times> cp \<Rightarrow> call list \<times> cp" where
  "run [] (log, s) = (log, s)"
| "run ((hw, x) # rest) (log, s) =
     (case exec hw x s of
        Inl e \<Rightarrow> run rest (log, s)
      | Inr (r, cs, s') \<Rightarrow> run rest (log @ cs, s'))"

subsection \<open>Notions used in the statements\<close>

text \<open>
  What the adjustment loop does to one element, the pin a slot stands for, and whether a
  slot holds a \<^verbatim>\<open>TouchIn\<close>.
\<close>

fun adjust_slot :: "int \<Rightarrow> slot \<Rightarrow> slot" where
  "adjust_slot d (TouchIn p t) = TouchIn p (t + d)"
| "adjust_slot d x = x"

fun pin_of :: "slot \<Rightarrow> pin option" where
  "pin_of None_slot = None"
| "pin_of (Pin p) = Some p"
| "pin_of (TouchIn p t) = Some p"

fun is_bound :: "slot \<Rightarrow> bool" where
  "is_bound (TouchIn p t) = True"
| "is_bound x = False"

text \<open>The object after one operation, and the calls the operation made.\<close>

definition after :: "hardware \<Rightarrow> op \<Rightarrow> cp \<Rightarrow> cp" where
  "after hw x s = (case exec hw x s of Inl e \<Rightarrow> s | Inr (r, cs, s') \<Rightarrow> s')"

definition calls_of :: "hardware \<Rightarrow> op \<Rightarrow> cp \<Rightarrow> call list" where
  "calls_of hw x s = (case exec hw x s of Inl e \<Rightarrow> [] | Inr (r, cs, s') \<Rightarrow> cs)"

text \<open>
  The invariant of the touch table: slot by slot it stands for the pins that \<^verbatim>\<open>__init__\<close>
  stored. A slot is bound to a pin when it holds a \<^verbatim>\<open>TouchIn\<close> on that pin.
\<close>

definition table_ok :: "slot list \<Rightarrow> bool" where
  "table_ok ts = (map pin_of ts = map pin_of initial_touches)"

fun bound_to :: "pin \<Rightarrow> slot \<Rightarrow> bool" where
  "bound_to p (TouchIn q t) = (q = p)"
| "bound_to p x = False"

text \<open>The adjustments made by a sequence of operations, in order.\<close>

fun adjustments :: "(hardware \<times> op) list \<Rightarrow> int list" where
  "adjustments [] = []"
| "adjustments ((hw, Adjust_touch_threshold d) # rest) = d # adjustments rest"
| "adjustments (x # rest) = adjustments rest"

subsection \<open>Examples\<close>

text \<open>
  A board that nobody touches, in the dark; a sequence of operations on it; and the
  object after its first read of pad A3.
\<close>

definition board_at_rest :: hardware where
  "board_at_rest =
     \<lparr>TouchIn_threshold = (\<lambda>p. 1100), TouchIn_value = (\<lambda>p t. False), AnalogIn_value = 0,
      GamePad_get_pressed = 0, button_a_value = False, button_b_value = False,
      switch_value = True, led_value = False, lis3dh_tapped = False,
      lis3dh_shake = (\<lambda>th. False)\<rparr>"

definition sample_steps :: "(hardware \<times> op) list" where
  "sample_steps =
     [(board_at_rest, Touch 3), (board_at_rest, Adjust_touch_threshold 200),
      (board_at_rest, Set_detect_taps 2), (board_at_rest, Touch 1),
      (board_at_rest, Light), (board_at_rest, Temperature), (board_at_rest, Touch 3)]"

definition A3_bound :: cp where
  "A3_bound =
     \<lparr>touches = [None_slot, Pin A1, Pin A2, TouchIn A3 1100, Pin A4, Pin A5, Pin A6, Pin TX],
      touch_threshold_adjustment = 0, detect_taps = 1\<rparr>"

section \<open>Auxiliary facts\<close>

lemma subscript_valid: "0 \<le> i \<Longrightarrow> i < int (length xs) \<Longrightarrow> subscript xs i = Inr (nat i)"
  by (simp add: subscript_def)

lemma subscript_bound: "subscript xs i = Inr k \<Longrightarrow> k < length xs"
  by (auto simp: subscript_def split: if_splits)

lemma subscript_length: "length xs = length ys \<Longrightarrow> subscript xs i = subscript ys i"
  by (simp add: subscript_def)

lemma adjust_loop_snd: "snd (adjust_loop d xs) = map (adjust_slot d) xs"
  by (induction d xs rule: adjust_loop.induct) (auto split: prod.splits)

lemma adjust_loop_no_new: "TouchIn_new p \<notin> set (fst (adjust_loop d xs))"
  by (induction d xs rule: adjust_loop.induct) (auto split: prod.splits)

lemma adjust_loop_unbound: "\<not> list_ex is_bound xs \<Longrightarrow> adjust_loop d xs = ([], xs)"
  by (induction d xs rule: adjust_loop.induct) (auto split: prod.splits)

lemma adjust_loop_calls:
  "TouchIn p t \<in> set xs \<Longrightarrow> TouchIn_set_threshold p (t + d) \<in> set (fst (adjust_loop d xs))"
  by (induction d xs rule: adjust_loop.induct) (auto split: prod.splits)

lemma pin_of_adjust_slot: "pin_of (adjust_slot d x) = pin_of x"
  by (cases x) auto

lemma is_bound_adjust_slot: "is_bound (adjust_slot d x) = is_bound x"
  by (cases x) auto

lemma adjust_slot_add: "adjust_slot d2 (adjust_slot d1 x) = adjust_slot (d1 + d2) x"
  by (cases x) auto

lemma adjust_touch_threshold_eq:
  "adjust_touch_threshold d s =
     (fst (adjust_loop d (touches s)),
      s\<lparr>touches := map (adjust_slot d) (touches s),
        touch_threshold_adjustment := touch_threshold_adjustment s + d\<rparr>)"
  by (simp add: adjust_touch_threshold_def adjust_loop_snd [symmetric] split: prod.splits)

lemma after_adjust:
  "after hw (Adjust_touch_threshold d) s =
     s\<lparr>touches := map (adjust_slot d) (touches s),
       touch_threshold_adjustment := touch_threshold_adjustment s + d\<rparr>"
  by (simp add: after_def adjust_touch_threshold_eq)

lemma after_touch:
  "after hw (Touch i) s =
     (case subscript (touches s) i of
        Inl e \<Rightarrow> s
      | Inr k \<Rightarrow>
          (case touches s ! k of
             Pin p \<Rightarrow> s\<lparr>touches := (touches s)
                 [k := TouchIn p (TouchIn_threshold hw p + touch_threshold_adjustment s)]\<rparr>
           | _ \<Rightarrow> s))"
  by (simp add: after_def touch_def Let_def split: sum.splits slot.splits)

lemma run_step: "run ((hw, x) # rest) (log, s) = run rest (log @ calls_of hw x s, after hw x s)"
  by (simp add: after_def calls_of_def split: sum.splits)

lemma run_append: "run (xs @ ys) ls = run ys (run xs ls)"
proof (induction xs arbitrary: ls)
  case Nil
  then show ?case by (cases ls) simp
next
  case (Cons a xs)
  obtain hw x where a: "a = (hw, x)" by (cases a)
  obtain log s where ls: "ls = (log, s)" by (cases ls)
  show ?case unfolding a ls by (simp add: Cons.IH split: sum.splits)
qed

lemma snd_run_Nil: "snd (run [] (log, s)) = s"
  by simp

lemma snd_run_Cons: "snd (run ((hw, x) # rest) (log, s)) = snd (run rest (log', after hw x s))"
proof -
  have "snd (run rest (l1, t)) = snd (run rest (l2, t))" for l1 l2 t
  proof (induction rest arbitrary: l1 l2 t)
    case Nil
    then show ?case by simp
  next
    case (Cons a rest)
    obtain h y where a: "a = (h, y)" by (cases a)
    show ?case unfolding a run_step by (rule Cons.IH)
  qed
  then show ?thesis unfolding run_step by blast
qed

lemma after_touch_adjust_commute:
  "after hw (Touch i) (after h (Adjust_touch_threshold d) s) =
   after h' (Adjust_touch_threshold d) (after hw (Touch i) s)"
proof -
  have sub: "subscript (map (adjust_slot d) (touches s)) i = subscript (touches s) i"
    by (rule subscript_length) simp
  show ?thesis
  proof (cases "subscript (touches s) i")
    case (Inl e)
    then show ?thesis
      by (simp add: after_adjust after_touch sub)
  next
    case (Inr k)
    then have k: "k < length (touches s)" by (rule subscript_bound)
    show ?thesis
      using k by (cases "touches s ! k")
        (simp_all add: after_adjust after_touch Inr sub map_update add.assoc)
  qed
qed

lemma after_adjust_adjust:
  "after h2 (Adjust_touch_threshold d2) (after h1 (Adjust_touch_threshold d1) s) =
   after h3 (Adjust_touch_threshold (d1 + d2)) s"
  by (simp add: after_adjust adjust_slot_add o_def add.assoc)

lemma and_1_bit: "(1 AND (p::int) \<noteq> 0) = bit p 0"
  by (simp add: and.commute bit_iff_and_push_bit_not_eq_0)

lemma and_2_bit: "(2 AND (p::int) \<noteq> 0) = bit p 1"
  by (metis and.commute and_exp_eq_0_iff_not_bit power_one_right)

lemma touch_Inr:
  assumes "touch hw i s = Inr (b, cs, s')"
  obtains k p where "subscript (touches s) i = Inr k" and "k < length (touches s)"
    and "touches s ! k = Pin p \<or> (\<exists>t. touches s ! k = TouchIn p t)"
    and "touches s' = (touches s)[k := touches s' ! k]"
    and "\<exists>t. touches s' ! k = TouchIn p t"
    and "touch_threshold_adjustment s' = touch_threshold_adjustment s"
    and "detect_taps s' = detect_taps s"
proof (cases "subscript (touches s) i")
  case (Inl e)
  with assms show ?thesis by (simp add: touch_def)
next
  case (Inr k)
  then have k: "k < length (touches s)" by (rule subscript_bound)
  show ?thesis
  proof (cases "touches s ! k")
    case None_slot
    with assms Inr show ?thesis by (simp add: touch_def)
  next
    case (Pin p)
    with assms Inr k that [of k p] show ?thesis
      by (auto simp: touch_def Let_def)
  next
    case (TouchIn p t)
    with assms Inr k that [of k p] show ?thesis
      by (auto simp: touch_def)
  qed
qed

lemma touches_after:
  "touches (after hw x s) =
     (case x of
        Touch i \<Rightarrow> touches (after hw (Touch i) s)
      | Adjust_touch_threshold d \<Rightarrow> map (adjust_slot d) (touches s)
      | _ \<Rightarrow> touches s)"
  by (cases x) (simp_all add: after_adjust, simp_all add: after_def detect_taps_setter_def)

lemma touches_after_touch:
  "touches (after hw (Touch i) s) = touches s \<or>
   (\<exists>k p t. k < length (touches s) \<and> touches s ! k = Pin p \<and>
      subscript (touches s) i = Inr k \<and>
      touches (after hw (Touch i) s) = (touches s)[k := TouchIn p t])"
proof (cases "subscript (touches s) i")
  case (Inl e)
  then show ?thesis by (simp add: after_touch)
next
  case (Inr k)
  then have k: "k < length (touches s)" by (rule subscript_bound)
  show ?thesis
  proof (cases "touches s ! k")
    case (Pin p)
    have "touches (after hw (Touch i) s) =
        (touches s)[k := TouchIn p (TouchIn_threshold hw p + touch_threshold_adjustment s)]"
      using Inr Pin by (simp add: after_touch)
    with k Pin Inr show ?thesis by blast
  qed (simp_all add: after_touch Inr)
qed

lemma after_keeps_bound:
  assumes "k < length (touches s)" and "touches s ! k = TouchIn p t"
  shows "k < length (touches (after hw x s)) \<and> (\<exists>t'. touches (after hw x s) ! k = TouchIn p t')"
proof (cases x)
  case (Touch i)
  from touches_after_touch [of hw i s] show ?thesis
  proof
    assume "touches (after hw (Touch i) s) = touches s"
    with assms Touch show ?thesis by simp
  next
    assume "\<exists>j q u. j < length (touches s) \<and> touches s ! j = Pin q \<and>
      subscript (touches s) i = Inr j \<and>
      touches (after hw (Touch i) s) = (touches s)[j := TouchIn q u]"
    then obtain j q u where j: "touches s ! j = Pin q"
      and eq: "touches (after hw (Touch i) s) = (touches s)[j := TouchIn q u]"
      by blast
    from j assms(2) have "j \<noteq> k" by auto
    with assms eq Touch show ?thesis by simp
  qed
next
  case (Adjust_touch_threshold d)
  with assms show ?thesis by (simp add: touches_after)
qed (use assms in \<open>simp_all add: touches_after\<close>)

lemma run_keeps_bound:
  assumes "k < length (touches s)" and "touches s ! k = TouchIn p t"
  shows "k < length (touches (snd (run steps (log, s)))) \<and>
         (\<exists>t'. touches (snd (run steps (log, s))) ! k = TouchIn p t')"
  using assms
proof (induction steps arbitrary: s t log)
  case Nil
  then show ?case by simp
next
  case (Cons a steps)
  obtain hw x where a: "a = (hw, x)" by (cases a)
  from after_keeps_bound [OF Cons.prems, of hw x]
  obtain t' where "k < length (touches (after hw x s))" "touches (after hw x s) ! k = TouchIn p t'"
    by blast
  then show ?case
    unfolding a run_step by (rule Cons.IH)
qed

lemma table_ok_after: "table_ok (touches s) \<Longrightarrow> table_ok (touches (after hw x s))"
proof (cases x)
  case (Touch i)
  assume ok: "table_ok (touches s)"
  from touches_after_touch [of hw i s] show ?thesis
  proof
    assume "touches (after hw (Touch i) s) = touches s"
    with ok Touch show ?thesis by simp
  next
    assume "\<exists>j q u. j < length (touches s) \<and> touches s ! j = Pin q \<and>
      subscript (touches s) i = Inr j \<and>
      touches (after hw (Touch i) s) = (touches s)[j := TouchIn q u]"
    then obtain j q u where j: "touches s ! j = Pin q" "j < length (touches s)"
      and eq: "touches (after hw (Touch i) s) = (touches s)[j := TouchIn q u]"
      by blast
    have "map pin_of ((touches s)[j := TouchIn q u]) = (map pin_of (touches s))[j := pin_of (touches s ! j)]"
      using j by (simp add: map_update)
    also have "\<dots> = map pin_of (touches s)"
      using j(2) by (simp add: list_update_same_conv)
    finally show ?thesis using ok eq Touch by (simp add: table_ok_def)
  qed
next
  case (Adjust_touch_threshold d)
  assume "table_ok (touches s)"
  then show ?thesis
    using Adjust_touch_threshold by (simp add: touches_after table_ok_def pin_of_adjust_slot o_def)
qed (simp_all add: touches_after)

lemma table_ok_run: "table_ok (touches s) \<Longrightarrow> table_ok (touches (snd (run steps (log, s))))"
proof (induction steps arbitrary: s log)
  case Nil
  then show ?case by simp
next
  case (Cons a steps)
  obtain hw x where a: "a = (hw, x)" by (cases a)
  from Cons.prems have "table_ok (touches (after hw x s))" by (rule table_ok_after)
  then show ?case unfolding a run_step by (rule Cons.IH)
qed

lemma init_eq:
  "init = ([LIS3DH_set_range_8_G, LIS3DH_set_tap 1 90 4 50 255],
           \<lparr>touches = initial_touches, touch_threshold_adjustment = 0, detect_taps = 1\<rparr>)"
  by (simp add: init_def detect_taps_setter_def)

lemma table_ok_reachable: "table_ok (touches (snd (run steps init)))"
proof -
  have "table_ok (touches (snd init))" by (simp add: init_eq table_ok_def)
  then have "table_ok (touches (snd (run steps (fst init, snd init))))" by (rule table_ok_run)
  then show ?thesis by simp
qed

lemma table_ok_slot:
  assumes "table_ok ts" and "1 \<le> i" and "i \<le> 7"
  shows "length ts = 8" and "subscript ts i = Inr (nat i)"
    and "pin_of (ts ! nat i) = pin_of (initial_touches ! nat i)"
    and "\<exists>p. initial_touches ! nat i = Pin p"
    and "ts ! 0 = None_slot"
proof -
  from assms(1) have "length (map pin_of ts) = length (map pin_of initial_touches)"
    unfolding table_ok_def by (rule arg_cong)
  then show len: "length ts = 8" by (simp add: initial_touches_def)
  from assms(2,3) len show "subscript ts i = Inr (nat i)"
    by (simp add: subscript_def)
  have "nat i < length ts" using assms(2,3) len by simp
  then have "pin_of (ts ! nat i) = map pin_of ts ! nat i" by simp
  also have "\<dots> = map pin_of initial_touches ! nat i"
    using assms(1) by (simp add: table_ok_def)
  also have "\<dots> = pin_of (initial_touches ! nat i)"
  proof -
    have "nat i < length initial_touches"
      using assms(2,3) by (simp add: initial_touches_def)
    then show ?thesis by (rule nth_map)
  qed
  finally show "pin_of (ts ! nat i) = pin_of (initial_touches ! nat i)" .
  from assms(2,3) have "nat i \<in> {1, 2, 3, 4, 5, 6, 7}" by auto
  then show "\<exists>p. initial_touches ! nat i = Pin p"
    by (auto simp: initial_touches_def)
  have "pin_of (ts ! 0) = map pin_of ts ! 0" using len by simp
  also have "\<dots> = None" using assms(1) by (simp add: table_ok_def initial_touches_def)
  finally show "ts ! 0 = None_slot" by (cases "ts ! 0") simp_all
qed

lemma touch_twice:
  assumes "touch hw i s = Inr (b, cs, s1)"
  shows "\<exists>k q t. subscript (touches s1) i = Inr k \<and> touches s1 ! k = TouchIn q t \<and>
           b = TouchIn_value hw q t \<and>
           touch hw' i s1 = Inr (TouchIn_value hw' q t, [TouchIn_get_value q], s1)"
proof (cases "subscript (touches s) i")
  case (Inl e)
  with assms show ?thesis by (simp add: touch_def)
next
  case (Inr k)
  then have k: "k < length (touches s)" by (rule subscript_bound)
  show ?thesis
  proof (cases "touches s ! k")
    case None_slot
    with assms Inr show ?thesis by (simp add: touch_def)
  next
    case (Pin p)
    let ?t = "TouchIn_threshold hw p + touch_threshold_adjustment s"
    from assms Inr Pin have s1: "s1 = s\<lparr>touches := (touches s)[k := TouchIn p ?t]\<rparr>"
      and b: "b = TouchIn_value hw p ?t"
      by (simp_all add: touch_def Let_def)
    have "subscript (touches s1) i = subscript (touches s) i"
      by (rule subscript_length) (simp add: s1)
    with Inr have sub: "subscript (touches s1) i = Inr k" by simp
    have slot: "touches s1 ! k = TouchIn p ?t"
      using k by (simp add: s1)
    have "touch hw' i s1 = Inr (TouchIn_value hw' p ?t, [TouchIn_get_value p], s1)"
      by (simp add: touch_def sub slot)
    with sub slot b show ?thesis by blast
  next
    case (TouchIn p t)
    from assms Inr TouchIn have s1: "s1 = s" and b: "b = TouchIn_value hw p t"
      by (simp_all add: touch_def)
    have "touch hw' i s1 = Inr (TouchIn_value hw' p t, [TouchIn_get_value p], s1)"
      by (simp add: touch_def s1 Inr TouchIn)
    with Inr TouchIn b s1 show ?thesis by blast
  qed
qed

lemma sample_run:
  "run sample_steps init =
     ([LIS3DH_set_range_8_G, LIS3DH_set_tap 1 90 4 50 255,
       TouchIn_new A3, TouchIn_set_threshold A3 1100, TouchIn_get_value A3,
       TouchIn_set_threshold A3 1300,
       LIS3DH_set_tap 2 60 10 50 255,
       TouchIn_new A1, TouchIn_set_threshold A1 1300, TouchIn_get_value A1,
       AnalogIn_get_value, Thermistor_get_temperature,
       TouchIn_get_value A3],
      \<lparr>touches = [None_slot, TouchIn A1 1300, Pin A2, TouchIn A3 1300, Pin A4, Pin A5, Pin A6, Pin TX],
       touch_threshold_adjustment = 200, detect_taps = 2\<rparr>)"
  by (simp add: sample_steps_def init_eq touch_def subscript_def initial_touches_def
      board_at_rest_def adjust_touch_threshold_def detect_taps_setter_def)

lemma touch_A3_first:
  "touch board_at_rest 3 (snd init) =
     Inr (False, [TouchIn_new A3, TouchIn_set_threshold A3 1100, TouchIn_get_value A3], A3_bound)"
  by (simp add: init_eq touch_def subscript_def initial_touches_def board_at_rest_def A3_bound_def)

lemma filter_update_length:
  "k < length xs \<Longrightarrow>
   length (filter P (xs[k := y])) + (if P (xs ! k) then 1 else 0) =
   length (filter P xs) + (if P y then 1 else 0)"
proof (induction xs arbitrary: k)
  case Nil
  then show ?case by simp
next
  case (Cons a xs)
  show ?case
  proof (cases k)
    case 0
    then show ?thesis by simp
  next
    case (Suc n)
    with Cons.prems have "n < length xs" by simp
    from Cons.IH [OF this] Suc show ?thesis by simp
  qed
qed

lemma bound_to_adjust_slot: "bound_to p (adjust_slot d x) = bound_to p x"
  by (cases x) auto

lemma bound_to_iff: "bound_to p x = (is_bound x \<and> pin_of x = Some p)"
  by (cases x) auto

lemma calls_of_touch:
  "calls_of hw (Touch i) s =
     (case subscript (touches s) i of
        Inl e \<Rightarrow> []
      | Inr k \<Rightarrow>
          (case touches s ! k of
             Pin p \<Rightarrow>
               [TouchIn_new p,
                TouchIn_set_threshold p (TouchIn_threshold hw p + touch_threshold_adjustment s),
                TouchIn_get_value p]
           | TouchIn p t \<Rightarrow> [TouchIn_get_value p]
           | None_slot \<Rightarrow> []))"
  by (simp add: calls_of_def touch_def Let_def split: sum.splits slot.splits)

lemma count_no_new: "TouchIn_new p \<notin> set cs \<Longrightarrow> count_list cs (TouchIn_new p) = 0"
  by (simp add: count_list_0_iff)

lemma step_count:
  "count_list (calls_of hw x s) (TouchIn_new p) + length (filter (bound_to p) (touches s)) =
   length (filter (bound_to p) (touches (after hw x s)))"
proof (cases x)
  case (Touch i)
  show ?thesis
  proof (cases "subscript (touches s) i")
    case (Inl e)
    then show ?thesis by (simp add: Touch calls_of_touch after_touch)
  next
    case (Inr k)
    then have k: "k < length (touches s)" by (rule subscript_bound)
    show ?thesis
    proof (cases "touches s ! k")
      case None_slot
      then show ?thesis by (simp add: Touch calls_of_touch after_touch Inr)
    next
      case (Pin q)
      from filter_update_length [OF k, of "bound_to p"
          "TouchIn q (TouchIn_threshold hw q + touch_threshold_adjustment s)"]
      show ?thesis by (simp add: Touch calls_of_touch after_touch Inr Pin)
    next
      case (TouchIn q t)
      then show ?thesis by (simp add: Touch calls_of_touch after_touch Inr)
    qed
  qed
next
  case (Adjust_touch_threshold d)
  have "calls_of hw x s = fst (adjust_loop d (touches s))"
    by (simp add: Adjust_touch_threshold calls_of_def adjust_touch_threshold_eq)
  then have "count_list (calls_of hw x s) (TouchIn_new p) = 0"
    by (simp add: count_no_new adjust_loop_no_new)
  then show ?thesis
    by (simp add: Adjust_touch_threshold after_adjust filter_map o_def bound_to_adjust_slot)
qed (simp_all add: calls_of_def after_def detect_taps_setter_def)

lemma run_count:
  "count_list log (TouchIn_new p) = length (filter (bound_to p) (touches s)) \<Longrightarrow>
   count_list (fst (run steps (log, s))) (TouchIn_new p) =
   length (filter (bound_to p) (touches (snd (run steps (log, s)))))"
proof (induction steps arbitrary: log s)
  case Nil
  then show ?case by simp
next
  case (Cons a steps)
  obtain hw x where a: "a = (hw, x)" by (cases a)
  have "count_list (log @ calls_of hw x s) (TouchIn_new p) =
      length (filter (bound_to p) (touches (after hw x s)))"
    using Cons.prems step_count [of hw x s p] by simp
  then show ?case unfolding a run_step by (rule Cons.IH)
qed

lemma reachable_count:
  "count_list (fst (run steps init)) (TouchIn_new p) =
   length (filter (bound_to p) (touches (snd (run steps init))))"
proof -
  have "count_list (fst init) (TouchIn_new p) = length (filter (bound_to p) (touches (snd init)))"
    by (simp add: init_eq initial_touches_def)
  then have "count_list (fst (run steps (fst init, snd init))) (TouchIn_new p) =
      length (filter (bound_to p) (touches (snd (run steps (fst init, snd init)))))"
    by (rule run_count)
  then show ?thesis by simp
qed

lemma table_ok_list:
  assumes "table_ok ts"
  obtains x0 x1 x2 x3 x4 x5 x6 x7 where "ts = [x0, x1, x2, x3, x4, x5, x6, x7]"
    and "pin_of x0 = None" and "pin_of x1 = Some A1" and "pin_of x2 = Some A2"
    and "pin_of x3 = Some A3" and "pin_of x4 = Some A4" and "pin_of x5 = Some A5"
    and "pin_of x6 = Some A6" and "pin_of x7 = Some TX"
  using assms unfolding table_ok_def initial_touches_def
  by (auto simp: map_eq_Cons_conv)

lemma table_ok_bound_count:
  assumes "table_ok ts" and "1 \<le> i" and "i \<le> 7" and "initial_touches ! nat i = Pin p"
  shows "length (filter (bound_to p) ts) = (if is_bound (ts ! nat i) then 1 else 0)"
proof -
  from assms(1) obtain x0 x1 x2 x3 x4 x5 x6 x7 where ts: "ts = [x0, x1, x2, x3, x4, x5, x6, x7]"
    and pins: "pin_of x0 = None" "pin_of x1 = Some A1" "pin_of x2 = Some A2"
      "pin_of x3 = Some A3" "pin_of x4 = Some A4" "pin_of x5 = Some A5"
      "pin_of x6 = Some A6" "pin_of x7 = Some TX"
    by (rule table_ok_list)
  from assms(2,3) have "nat i \<in> {1, 2, 3, 4, 5, 6, 7}" by auto
  then consider "nat i = 1" | "nat i = 2" | "nat i = 3" | "nat i = 4" | "nat i = 5"
    | "nat i = 6" | "nat i = 7" by auto
  then show ?thesis
  proof cases
    case 1
    with assms(4) have "p = A1" by (simp add: initial_touches_def)
    then show ?thesis using 1 pins by (simp add: ts bound_to_iff)
  next
    case 2
    with assms(4) have "p = A2" by (simp add: initial_touches_def)
    then show ?thesis using 2 pins by (simp add: ts bound_to_iff)
  next
    case 3
    with assms(4) have "p = A3" by (simp add: initial_touches_def)
    then show ?thesis using 3 pins by (simp add: ts bound_to_iff)
  next
    case 4
    with assms(4) have "p = A4" by (simp add: initial_touches_def)
    then show ?thesis using 4 pins by (simp add: ts bound_to_iff)
  next
    case 5
    with assms(4) have "p = A5" by (simp add: initial_touches_def)
    then show ?thesis using 5 pins by (simp add: ts bound_to_iff)
  next
    case 6
    with assms(4) have "p = A6" by (simp add: initial_touches_def)
    then show ?thesis using 6 pins by (simp add: ts bound_to_iff)
  next
    case 7
    with assms(4) have "p = TX" by (simp add: initial_touches_def)
    then show ?thesis using 7 pins by (simp add: ts bound_to_iff)
  qed
qed

lemma touch_binds:
  assumes "table_ok (touches s)" and "1 \<le> i" and "i \<le> 7"
  shows "nat i < length (touches (after hw (Touch i) s)) \<and>
         (\<exists>p t. touches (after hw (Touch i) s) ! nat i = TouchIn p t)"
proof -
  note slot = table_ok_slot [OF assms]
  from slot(4) obtain p where "initial_touches ! nat i = Pin p" by blast
  with slot(3) have pin: "pin_of (touches s ! nat i) = Some p" by simp
  have len: "nat i < length (touches s)" using slot(1) assms(2,3) by simp
  show ?thesis
    using pin len by (cases "touches s ! nat i") (simp_all add: after_touch slot(2))
qed

lemma run_touch_binds:
  assumes "table_ok (touches s)" and "1 \<le> i" and "i \<le> 7" and "(hw, Touch i) \<in> set steps"
  shows "is_bound (touches (snd (run steps (log, s))) ! nat i)"
  using assms(1,4)
proof (induction steps arbitrary: s log)
  case Nil
  then show ?case by simp
next
  case (Cons a steps)
  obtain h x where a: "a = (h, x)" by (cases a)
  show ?case
  proof (cases "a = (hw, Touch i)")
    case True
    from touch_binds [OF Cons.prems(1) assms(2,3), of hw]
    obtain p t where "nat i < length (touches (after hw (Touch i) s))"
      and "touches (after hw (Touch i) s) ! nat i = TouchIn p t" by blast
    from run_keeps_bound [OF this, of steps "log @ calls_of hw (Touch i) s"]
    have "is_bound (touches (snd (run steps
        (log @ calls_of hw (Touch i) s, after hw (Touch i) s))) ! nat i)"
      by auto
    then show ?thesis unfolding True run_step .
  next
    case False
    with Cons.prems(2) have mem: "(hw, Touch i) \<in> set steps" by simp
    from Cons.prems(1) have "table_ok (touches (after h x s))" by (rule table_ok_after)
    from Cons.IH [OF this mem] show ?thesis unfolding a run_step .
  qed
qed

lemma adjustment_after:
  "touch_threshold_adjustment (after hw x s) =
     touch_threshold_adjustment s + sum_list (adjustments [(hw, x)])"
proof (cases x)
  case (Touch i)
  then show ?thesis by (simp add: after_touch split: sum.splits slot.splits)
next
  case (Adjust_touch_threshold d)
  then show ?thesis by (simp add: after_adjust)
qed (simp_all add: after_def detect_taps_setter_def)

lemma adjustments_Cons: "adjustments (a # rest) = adjustments [a] @ adjustments rest"
proof -
  obtain hw x where a: "a = (hw, x)" by (cases a)
  show ?thesis unfolding a by (cases x) simp_all
qed

lemma run_adjustment:
  "touch_threshold_adjustment (snd (run steps (log, s))) =
     touch_threshold_adjustment s + sum_list (adjustments steps)"
proof (induction steps arbitrary: log s)
  case Nil
  then show ?case by simp
next
  case (Cons a steps)
  obtain hw x where a: "a = (hw, x)" by (cases a)
  have "touch_threshold_adjustment (snd (run (a # steps) (log, s))) =
      touch_threshold_adjustment (after hw x s) + sum_list (adjustments steps)"
    unfolding a run_step by (rule Cons.IH)
  also have "\<dots> = touch_threshold_adjustment s + sum_list (adjustments (a # steps))"
    using adjustments_Cons [of "(hw, x)" steps] by (simp add: adjustment_after a)
  finally show ?case .
qed

section \<open>The claims\<close>

text \<open>
  C1. Take a slot index \<open>i\<close> from 1 to 7 and any sequence of operations on the
  constructed object, with the log of all calls made so far. The slot was built with a
  pin \<open>p\<close>, and \<^verbatim>\<open>TouchIn(p)\<close> has been called at most once; exactly once if the sequence
  holds a read of slot \<open>i\<close>. Either the slot still holds \<open>p\<close> and \<^verbatim>\<open>TouchIn(p)\<close> has never
  been called: then a read constructs the \<^verbatim>\<open>TouchIn\<close>, stores it in the slot and returns
  its value. Or the slot holds a \<^verbatim>\<open>TouchIn\<close> on \<open>p\<close> and \<^verbatim>\<open>TouchIn(p)\<close> has been called
  once: then a read constructs nothing, leaves the object as it is and returns the value
  of that \<^verbatim>\<open>TouchIn\<close>.
\<close>

theorem touch_promotes_once:
  assumes "1 \<le> i" and "i \<le> 7" and "run steps init = (log, s)"
  shows "\<exists>p. initial_touches ! nat i = Pin p \<and>
           count_list log (TouchIn_new p) \<le> 1 \<and>
           ((hw', Touch i) \<in> set steps \<longrightarrow> count_list log (TouchIn_new p) = 1) \<and>
           (touches s ! nat i = Pin p \<and> count_list log (TouchIn_new p) = 0 \<and>
              touch hw i s =
                Inr (TouchIn_value hw p (TouchIn_threshold hw p + touch_threshold_adjustment s),
                     [TouchIn_new p,
                      TouchIn_set_threshold p (TouchIn_threshold hw p + touch_threshold_adjustment s),
                      TouchIn_get_value p],
                     s\<lparr>touches := (touches s)
                        [nat i := TouchIn p (TouchIn_threshold hw p + touch_threshold_adjustment s)]\<rparr>)
            \<or> (\<exists>t. touches s ! nat i = TouchIn p t \<and> count_list log (TouchIn_new p) = 1 \<and>
                  touch hw i s = Inr (TouchIn_value hw p t, [TouchIn_get_value p], s)))"
proof -
  have log: "log = fst (run steps init)" and s: "s = snd (run steps init)"
    using assms(3) by simp_all
  have ok: "table_ok (touches s)" unfolding s by (rule table_ok_reachable)
  note slot = table_ok_slot [OF ok assms(1,2)]
  from slot(4) obtain p where p: "initial_touches ! nat i = Pin p" by blast
  have count: "count_list log (TouchIn_new p) = (if is_bound (touches s ! nat i) then 1 else 0)"
    unfolding log s reachable_count
    by (rule table_ok_bound_count [OF ok [unfolded s] assms(1,2) p])
  have touched: "(hw', Touch i) \<in> set steps \<longrightarrow> count_list log (TouchIn_new p) = 1"
  proof
    assume mem: "(hw', Touch i) \<in> set steps"
    have "table_ok (touches (snd init))" by (simp add: init_eq table_ok_def)
    from run_touch_binds [OF this assms(1,2) mem, of "fst init"]
    have "is_bound (touches s ! nat i)" by (simp add: s)
    with count show "count_list log (TouchIn_new p) = 1" by simp
  qed
  from p slot(3) have pin: "pin_of (touches s ! nat i) = Some p" by simp
  show ?thesis
  proof (cases "touches s ! nat i")
    case None_slot
    with pin show ?thesis by simp
  next
    case (Pin q)
    with pin have q: "q = p" by simp
    have "touch hw i s =
        Inr (TouchIn_value hw p (TouchIn_threshold hw p + touch_threshold_adjustment s),
             [TouchIn_new p,
              TouchIn_set_threshold p (TouchIn_threshold hw p + touch_threshold_adjustment s),
              TouchIn_get_value p],
             s\<lparr>touches := (touches s)
                [nat i := TouchIn p (TouchIn_threshold hw p + touch_threshold_adjustment s)]\<rparr>)"
      by (simp add: touch_def slot(2) Pin q Let_def)
    with p count touched Pin q show ?thesis by simp
  next
    case (TouchIn q t)
    with pin have q: "q = p" by simp
    have "touch hw i s = Inr (TouchIn_value hw p t, [TouchIn_get_value p], s)"
      by (simp add: touch_def slot(2) TouchIn q)
    with p count touched TouchIn q show ?thesis by simp
  qed
qed

theorem touch_promotes_once_witness:
  "(1::int) \<le> 3 \<and> (3::int) \<le> 7 \<and>
   (board_at_rest, Touch 3) \<in> set sample_steps \<and>
   initial_touches ! nat 3 = Pin A3 \<and>
   count_list (fst (run sample_steps init)) (TouchIn_new A3) = 1 \<and>
   touch board_at_rest 3 (snd (run sample_steps init)) =
     Inr (False, [TouchIn_get_value A3], snd (run sample_steps init))"
proof -
  have mem: "(board_at_rest, Touch 3) \<in> set sample_steps"
    by (simp add: sample_steps_def)
  have p: "initial_touches ! nat 3 = Pin A3"
    by (simp add: initial_touches_def)
  have slot: "touches (snd (run sample_steps init)) ! nat 3 = TouchIn A3 1300"
    by (simp add: sample_run)
  from touch_promotes_once [of 3 sample_steps "fst (run sample_steps init)"
      "snd (run sample_steps init)" board_at_rest board_at_rest]
  obtain q where q: "initial_touches ! nat 3 = Pin q"
    and once: "(board_at_rest, Touch 3) \<in> set sample_steps \<longrightarrow>
        count_list (fst (run sample_steps init)) (TouchIn_new q) = 1"
    and cases: "touches (snd (run sample_steps init)) ! nat 3 = Pin q \<and>
        count_list (fst (run sample_steps init)) (TouchIn_new q) = 0 \<and>
        touch board_at_rest 3 (snd (run sample_steps init)) =
          Inr (TouchIn_value board_at_rest q
                 (TouchIn_threshold board_at_rest q +
                  touch_threshold_adjustment (snd (run sample_steps init))),
               [TouchIn_new q,
                TouchIn_set_threshold q (TouchIn_threshold board_at_rest q +
                  touch_threshold_adjustment (snd (run sample_steps init))),
                TouchIn_get_value q],
               (snd (run sample_steps init))\<lparr>touches := (touches (snd (run sample_steps init)))
                  [nat 3 := TouchIn q (TouchIn_threshold board_at_rest q +
                     touch_threshold_adjustment (snd (run sample_steps init)))]\<rparr>)
      \<or> (\<exists>t. touches (snd (run sample_steps init)) ! nat 3 = TouchIn q t \<and>
            count_list (fst (run sample_steps init)) (TouchIn_new q) = 1 \<and>
            touch board_at_rest 3 (snd (run sample_steps init)) =
              Inr (TouchIn_value board_at_rest q t, [TouchIn_get_value q],
                   snd (run sample_steps init)))"
    by auto
  from p q have qe: "q = A3" by simp
  from cases slot qe have
    "touch board_at_rest 3 (snd (run sample_steps init)) =
       Inr (TouchIn_value board_at_rest A3 1300, [TouchIn_get_value A3],
            snd (run sample_steps init))"
    by auto
  then have "touch board_at_rest 3 (snd (run sample_steps init)) =
       Inr (False, [TouchIn_get_value A3], snd (run sample_steps init))"
    by (simp add: board_at_rest_def)
  with mem p once qe show ?thesis by simp
qed

text \<open>
  C2. \<^verbatim>\<open>adjust_touch_threshold(d)\<close> adds \<open>d\<close> to the accumulated adjustment and leaves
  the tap mode and the length of the table alone. Every slot that holds a \<^verbatim>\<open>TouchIn\<close>
  has \<open>d\<close> added to its threshold, by a call that sets it; every other slot is left as
  it is. A slot that holds a pin and is read after the adjustment gets a \<^verbatim>\<open>TouchIn\<close>
  whose threshold is the one the driver starts with plus the accumulated adjustment,
  \<open>d\<close> included. When no slot holds a \<^verbatim>\<open>TouchIn\<close>, the adjustment makes no call and
  changes the accumulated adjustment only. After any sequence of operations on the
  constructed object the accumulated adjustment is the sum of the adjustments made.
\<close>

theorem adjust_touch_threshold_effect:
  "touch_threshold_adjustment (snd (adjust_touch_threshold d s)) =
     touch_threshold_adjustment s + d \<and>
   detect_taps (snd (adjust_touch_threshold d s)) = detect_taps s \<and>
   length (touches (snd (adjust_touch_threshold d s))) = length (touches s) \<and>
   (k < length (touches s) \<and> touches s ! k = TouchIn p t \<longrightarrow>
      touches (snd (adjust_touch_threshold d s)) ! k = TouchIn p (t + d) \<and>
      TouchIn_set_threshold p (t + d) \<in> set (fst (adjust_touch_threshold d s))) \<and>
   (j < length (touches s) \<and> \<not> is_bound (touches s ! j) \<longrightarrow>
      touches (snd (adjust_touch_threshold d s)) ! j = touches s ! j) \<and>
   (subscript (touches s) i = Inr m \<and> touches s ! m = Pin q \<longrightarrow>
      touch hw i (snd (adjust_touch_threshold d s)) =
        Inr (TouchIn_value hw q (TouchIn_threshold hw q + (touch_threshold_adjustment s + d)),
             [TouchIn_new q,
              TouchIn_set_threshold q (TouchIn_threshold hw q + (touch_threshold_adjustment s + d)),
              TouchIn_get_value q],
             (snd (adjust_touch_threshold d s))
               \<lparr>touches := (touches (snd (adjust_touch_threshold d s)))
                  [m := TouchIn q (TouchIn_threshold hw q + (touch_threshold_adjustment s + d))]\<rparr>)) \<and>
   (\<not> list_ex is_bound (touches u) \<longrightarrow>
      adjust_touch_threshold d u =
        ([], u\<lparr>touch_threshold_adjustment := touch_threshold_adjustment u + d\<rparr>)) \<and>
   touch_threshold_adjustment (snd (run steps init)) = sum_list (adjustments steps)"
proof -
  let ?s' = "snd (adjust_touch_threshold d s)"
  have s': "?s' = s\<lparr>touches := map (adjust_slot d) (touches s),
        touch_threshold_adjustment := touch_threshold_adjustment s + d\<rparr>"
    by (simp add: adjust_touch_threshold_eq)
  have calls: "fst (adjust_touch_threshold d s) = fst (adjust_loop d (touches s))"
    by (simp add: adjust_touch_threshold_eq)
  have bound: "touches ?s' ! k = TouchIn p (t + d) \<and>
      TouchIn_set_threshold p (t + d) \<in> set (fst (adjust_touch_threshold d s))"
    if "k < length (touches s) \<and> touches s ! k = TouchIn p t"
  proof -
    from that have "TouchIn p t \<in> set (touches s)" by (metis nth_mem)
    then have "TouchIn_set_threshold p (t + d) \<in> set (fst (adjust_loop d (touches s)))"
      by (rule adjust_loop_calls)
    with that show ?thesis by (simp add: s' calls)
  qed
  have unbound: "touches ?s' ! j = touches s ! j"
    if "j < length (touches s) \<and> \<not> is_bound (touches s ! j)"
    using that by (cases "touches s ! j") (simp_all add: s')
  have later: "touch hw i ?s' =
        Inr (TouchIn_value hw q (TouchIn_threshold hw q + (touch_threshold_adjustment s + d)),
             [TouchIn_new q,
              TouchIn_set_threshold q (TouchIn_threshold hw q + (touch_threshold_adjustment s + d)),
              TouchIn_get_value q],
             ?s'\<lparr>touches := (touches ?s')
                  [m := TouchIn q (TouchIn_threshold hw q + (touch_threshold_adjustment s + d))]\<rparr>)"
    if h: "subscript (touches s) i = Inr m \<and> touches s ! m = Pin q"
  proof -
    from h have m: "m < length (touches s)" by (blast intro: subscript_bound)
    have "subscript (touches ?s') i = subscript (touches s) i"
      by (rule subscript_length) (simp add: s')
    with h have sub: "subscript (touches ?s') i = Inr m" by simp
    have slot: "touches ?s' ! m = Pin q" using h m by (simp add: s')
    have acc: "touch_threshold_adjustment ?s' = touch_threshold_adjustment s + d"
      by (simp add: s')
    show ?thesis
      unfolding touch_def sub by (simp add: slot acc Let_def)
  qed
  have none: "adjust_touch_threshold d u =
        ([], u\<lparr>touch_threshold_adjustment := touch_threshold_adjustment u + d\<rparr>)"
    if "\<not> list_ex is_bound (touches u)"
    using that by (simp add: adjust_touch_threshold_def adjust_loop_unbound)
  have total: "touch_threshold_adjustment (snd (run steps init)) = sum_list (adjustments steps)"
    using run_adjustment [of steps "fst init" "snd init"] by (simp add: init_eq)
  show ?thesis
    using bound unbound later none total by (simp add: s')
qed

theorem adjust_touch_threshold_effect_witness:
  "(3 < length (touches A3_bound) \<and> touches A3_bound ! 3 = TouchIn A3 1100) \<and>
   touches (snd (adjust_touch_threshold 200 A3_bound)) ! 3 = TouchIn A3 1300 \<and>
   TouchIn_set_threshold A3 1300 \<in> set (fst (adjust_touch_threshold 200 A3_bound)) \<and>
   (5 < length (touches A3_bound) \<and> \<not> is_bound (touches A3_bound ! 5)) \<and>
   touches (snd (adjust_touch_threshold 200 A3_bound)) ! 5 = touches A3_bound ! 5 \<and>
   (subscript (touches A3_bound) 5 = Inr 5 \<and> touches A3_bound ! 5 = Pin A5) \<and>
   (\<exists>b s'. touch board_at_rest 5 (snd (adjust_touch_threshold 200 A3_bound)) =
      Inr (b, [TouchIn_new A5, TouchIn_set_threshold A5 1300, TouchIn_get_value A5], s')) \<and>
   \<not> list_ex is_bound (touches (snd init)) \<and>
   adjust_touch_threshold 200 (snd init) =
     ([], (snd init)\<lparr>touch_threshold_adjustment := 200\<rparr>)"
proof -
  have h1: "3 < length (touches A3_bound) \<and> touches A3_bound ! 3 = TouchIn A3 1100"
    by (simp add: A3_bound_def)
  have h2: "5 < length (touches A3_bound) \<and> \<not> is_bound (touches A3_bound ! 5)"
    by (simp add: A3_bound_def)
  have h3: "subscript (touches A3_bound) 5 = Inr 5 \<and> touches A3_bound ! 5 = Pin A5"
    by (simp add: A3_bound_def subscript_def)
  have h4: "\<not> list_ex is_bound (touches (snd init))"
    by (simp add: init_eq initial_touches_def)
  have acc: "touch_threshold_adjustment A3_bound = 0" "touch_threshold_adjustment (snd init) = 0"
    "TouchIn_threshold board_at_rest A5 = 1100"
    by (simp_all add: A3_bound_def init_eq board_at_rest_def)
  show ?thesis
    using h1 h2 h3 h4
      adjust_touch_threshold_effect [where d = 200 and s = A3_bound and k = 3 and p = A3
        and t = 1100 and j = 5 and i = 5 and m = 5 and q = A5 and hw = board_at_rest
        and u = "snd init" and steps = "[]"]
    by (simp add: acc)
qed

text \<open>
  C3. Two threshold adjustments \<open>d1\<close> and \<open>d2\<close> leave the object in the state that the
  single adjustment \<open>d1 + d2\<close> leaves it in, wherever the read of slot \<open>i\<close> that may bind
  the slot happens: before both adjustments, between them, or after them. The states
  are equal as a whole, so slot \<open>i\<close> holds the same threshold in all of them. The driver's
  answers to the read are the same (\<open>hw\<close>) in the sequences compared.
\<close>

theorem adjust_touch_threshold_additive:
  "snd (run [(h1, Adjust_touch_threshold d1), (h2, Adjust_touch_threshold d2)] (log, s)) =
     snd (run [(h3, Adjust_touch_threshold (d1 + d2))] (log, s)) \<and>
   snd (run [(hw, Touch i), (h1, Adjust_touch_threshold d1), (h2, Adjust_touch_threshold d2)] (log, s)) =
     snd (run [(hw, Touch i), (h3, Adjust_touch_threshold (d1 + d2))] (log, s)) \<and>
   snd (run [(h1, Adjust_touch_threshold d1), (hw, Touch i), (h2, Adjust_touch_threshold d2)] (log, s)) =
     snd (run [(hw, Touch i), (h3, Adjust_touch_threshold (d1 + d2))] (log, s)) \<and>
   snd (run [(h1, Adjust_touch_threshold d1), (h2, Adjust_touch_threshold d2), (hw, Touch i)] (log, s)) =
     snd (run [(hw, Touch i), (h3, Adjust_touch_threshold (d1 + d2))] (log, s)) \<and>
   snd (run [(h3, Adjust_touch_threshold (d1 + d2)), (hw, Touch i)] (log, s)) =
     snd (run [(hw, Touch i), (h3, Adjust_touch_threshold (d1 + d2))] (log, s))"
proof -
  let ?A1 = "after h1 (Adjust_touch_threshold d1)"
  let ?A2 = "after h2 (Adjust_touch_threshold d2)"
  let ?A = "after h3 (Adjust_touch_threshold (d1 + d2))"
  let ?T = "after hw (Touch i)"
  have run2: "snd (run [(ha, x), (hb, y)] (log, s)) = after hb y (after ha x s)" for ha hb x y
    by (simp only: snd_run_Cons [where log' = log] snd_run_Nil)
  have run3: "snd (run [(ha, x), (hb, y), (hc, z)] (log, s)) = after hc z (after hb y (after ha x s))"
    for ha hb hc x y z
    by (simp only: snd_run_Cons [where log' = log] snd_run_Nil)
  have run1: "snd (run [(ha, x)] (log, s)) = after ha x s" for ha x
    by (simp only: snd_run_Cons [where log' = log] snd_run_Nil)
  have a: "?A2 (?A1 t) = ?A t" for t by (rule after_adjust_adjust)
  have c1: "?T (?A1 t) = ?A1 (?T t)" for t by (rule after_touch_adjust_commute)
  have c2: "?T (?A2 t) = ?A2 (?T t)" for t by (rule after_touch_adjust_commute)
  have c: "?T (?A t) = ?A (?T t)" for t by (rule after_touch_adjust_commute)
  show ?thesis
    unfolding run1 run2 run3 by (simp only: a c1 c2 c simp_thms)
qed

text \<open>
  C4. A slot that holds a \<^verbatim>\<open>TouchIn\<close> on a pin holds a \<^verbatim>\<open>TouchIn\<close> on the same pin after
  any sequence of operations, whatever the drivers answer and whether or not an
  operation raises. And a read of a slot that returns leaves a state in which the slot
  is bound and which a second read of the same slot returns unchanged, with the value of
  the same \<^verbatim>\<open>TouchIn\<close> and without a new construction.
\<close>

theorem bound_never_reverts:
  "(k < length (touches s) \<and> touches s ! k = TouchIn p t \<longrightarrow>
      k < length (touches (snd (run steps (log, s)))) \<and>
      (\<exists>t'. touches (snd (run steps (log, s))) ! k = TouchIn p t')) \<and>
   (touch hw i s0 = Inr (b, cs, s1) \<longrightarrow>
      (\<exists>j q u. subscript (touches s1) i = Inr j \<and> touches s1 ! j = TouchIn q u \<and>
         b = TouchIn_value hw q u \<and>
         touch hw' i s1 = Inr (TouchIn_value hw' q u, [TouchIn_get_value q], s1)))"
  using run_keeps_bound [of k s p t steps log] touch_twice [of hw i s0 b cs s1 hw']
  by blast

theorem bound_never_reverts_witness:
  "3 < length (touches A3_bound) \<and> touches A3_bound ! 3 = TouchIn A3 1100 \<and>
   (\<exists>t'. touches (snd (run sample_steps ([], A3_bound))) ! 3 = TouchIn A3 t') \<and>
   touch board_at_rest 3 (snd init) =
     Inr (False, [TouchIn_new A3, TouchIn_set_threshold A3 1100, TouchIn_get_value A3], A3_bound) \<and>
   (\<exists>j q u. subscript (touches A3_bound) 3 = Inr j \<and> touches A3_bound ! j = TouchIn q u \<and>
      touch board_at_rest 3 A3_bound =
        Inr (TouchIn_value board_at_rest q u, [TouchIn_get_value q], A3_bound))"
proof -
  have h: "3 < length (touches A3_bound) \<and> touches A3_bound ! 3 = TouchIn A3 1100"
    by (simp add: A3_bound_def)
  show ?thesis
    using h touch_A3_first
      bound_never_reverts [where k = 3 and s = A3_bound and p = A3 and t = 1100
        and steps = sample_steps and log = "[]" and hw = board_at_rest and i = 3
        and ?s0.0 = "snd init" and b = False
        and cs = "[TouchIn_new A3, TouchIn_set_threshold A3 1100, TouchIn_get_value A3]"
        and ?s1.0 = A3_bound and hw' = board_at_rest]
    by blast
qed

text \<open>
  C5. Writing 1 to \<^verbatim>\<open>detect_taps\<close> makes exactly one call, \<^verbatim>\<open>set_tap(1, 90, time_limit=4,
  time_latency=50, time_window=255)\<close>; writing 2 makes exactly one call,
  \<^verbatim>\<open>set_tap(2, 60, time_limit=10, time_latency=50, time_window=255)\<close>; writing 1 and then
  2 makes these two calls, which differ, in this order.
\<close>

theorem detect_taps_configures:
  "exec hw (Set_detect_taps 1) s =
     Inr (RNone, [LIS3DH_set_tap 1 90 4 50 255], s\<lparr>detect_taps := 1\<rparr>) \<and>
   exec hw (Set_detect_taps 2) s =
     Inr (RNone, [LIS3DH_set_tap 2 60 10 50 255], s\<lparr>detect_taps := 2\<rparr>) \<and>
   run [(hw, Set_detect_taps 1), (hw', Set_detect_taps 2)] ([], s) =
     ([LIS3DH_set_tap 1 90 4 50 255, LIS3DH_set_tap 2 60 10 50 255], s\<lparr>detect_taps := 2\<rparr>) \<and>
   LIS3DH_set_tap 1 90 4 50 255 \<noteq> LIS3DH_set_tap 2 60 10 50 255"
  by (simp add: detect_taps_setter_def)

text \<open>
  C6. Writing a value other than 1 and 2 to \<^verbatim>\<open>detect_taps\<close> raises nothing, makes no
  call to the accelerometer and stores the value: reading \<^verbatim>\<open>detect_taps\<close> afterwards
  returns it.
\<close>

theorem detect_taps_other_value:
  assumes "v \<noteq> 1" and "v \<noteq> 2"
  shows "exec hw (Set_detect_taps v) s = Inr (RNone, [], s\<lparr>detect_taps := v\<rparr>) \<and>
         exec hw' Get_detect_taps (s\<lparr>detect_taps := v\<rparr>) = Inr (RInt v, [], s\<lparr>detect_taps := v\<rparr>)"
  using assms by (simp add: detect_taps_setter_def detect_taps_getter_def)

theorem detect_taps_other_value_witness:
  "(0::int) \<noteq> 1 \<and> (0::int) \<noteq> 2 \<and>
   exec board_at_rest (Set_detect_taps 0) (snd init) =
     Inr (RNone, [], (snd init)\<lparr>detect_taps := 0\<rparr>) \<and>
   exec board_at_rest Get_detect_taps ((snd init)\<lparr>detect_taps := 0\<rparr>) =
     Inr (RInt 0, [], (snd init)\<lparr>detect_taps := 0\<rparr>)"
  using detect_taps_other_value [of 0 board_at_rest "snd init" board_at_rest] by simp

text \<open>
  C7. The light level is the raw reading times 330, divided by 65536 rounding down:
  330 for the raw reading 65536 and 0 for the raw reading 0. The property \<^verbatim>\<open>light\<close> of
  the board returns this value for the reading of its photocell.
\<close>

theorem light_scaling:
  "Photocell_light r = r * 330 div 65536 \<and>
   Photocell_light 65536 = 330 \<and>
   Photocell_light 0 = 0 \<and>
   exec hw Light s = Inr (RInt (AnalogIn_value hw * 330 div 65536), [AnalogIn_get_value], s)"
  by (simp add: Photocell_light_def)

text \<open>
  C8. \<^verbatim>\<open>were_pressed\<close> returns the set that holds \<^verbatim>\<open>'A'\<close> exactly when bit 0 of the
  polled bitmask is set and \<^verbatim>\<open>'B'\<close> exactly when bit 1 is set, and nothing else: both
  for the bitmask 3, neither for 0, and \<^verbatim>\<open>'A'\<close> alone for 1.
\<close>

theorem were_pressed_decodes:
  "were_pressed hw =
     (if bit (GamePad_get_pressed hw) 0 then {''A''} else {}) \<union>
     (if bit (GamePad_get_pressed hw) 1 then {''B''} else {}) \<and>
   were_pressed (hw\<lparr>GamePad_get_pressed := 3\<rparr>) = {''A'', ''B''} \<and>
   were_pressed (hw\<lparr>GamePad_get_pressed := 0\<rparr>) = {} \<and>
   were_pressed (hw\<lparr>GamePad_get_pressed := 1\<rparr>) = {''A''}"
proof -
  have general: "were_pressed h =
     (if bit (GamePad_get_pressed h) 0 then {''A''} else {}) \<union>
     (if bit (GamePad_get_pressed h) 1 then {''B''} else {})" for h
    by (auto simp: were_pressed_def and_1_bit and_2_bit)
  have b3: "bit (3::int) 0 \<and> bit (3::int) 1" by (simp add: bit_numeral_simps)
  have b1: "bit (1::int) 0 \<and> \<not> bit (1::int) 1" by (simp add: bit_1_iff)
  show ?thesis
    using b3 b1 by (simp add: general [of "hw\<lparr>GamePad_get_pressed := 3\<rparr>"] general [of "hw\<lparr>GamePad_get_pressed := 0\<rparr>"] general [of "hw\<lparr>GamePad_get_pressed := 1\<rparr>"] general [of hw] insert_commute)
qed

text \<open>
  C9. In every state that a sequence of operations reaches from the constructed object,
  the subscript of a slot index from 1 to 7 is in range and is the index itself, never 0;
  the slot holds a pin or a \<^verbatim>\<open>TouchIn\<close> and not \<^verbatim>\<open>None\<close>, so that the read returns; slot 0
  still holds \<^verbatim>\<open>None\<close>. The seven public properties read the slots 1 to 7.
\<close>

theorem touch_slot_valid:
  assumes "1 \<le> i" and "i \<le> 7"
  shows "subscript (touches (snd (run steps init))) i = Inr (nat i) \<and>
         nat i < length (touches (snd (run steps init))) \<and>
         nat i \<noteq> 0 \<and>
         touches (snd (run steps init)) ! nat i \<noteq> None_slot \<and>
         touches (snd (run steps init)) ! 0 = None_slot \<and>
         (\<exists>b cs s'. touch hw i (snd (run steps init)) = Inr (b, cs, s')) \<and>
         touch_A1 hw s = touch hw 1 s \<and> touch_A2 hw s = touch hw 2 s \<and>
         touch_A3 hw s = touch hw 3 s \<and> touch_A4 hw s = touch hw 4 s \<and>
         touch_A5 hw s = touch hw 5 s \<and> touch_A6 hw s = touch hw 6 s \<and>
         touch_TX hw s = touch hw 7 s"
proof -
  let ?s = "snd (run steps init)"
  have ok: "table_ok (touches ?s)" by (rule table_ok_reachable)
  note slot = table_ok_slot [OF ok assms]
  from slot(4) obtain p where p: "initial_touches ! nat i = Pin p" by blast
  with slot(3) have pin: "pin_of (touches ?s ! nat i) = Some p" by simp
  then have not_none: "touches ?s ! nat i \<noteq> None_slot" by auto
  have "\<exists>b cs s'. touch hw i ?s = Inr (b, cs, s')"
    using not_none by (cases "touches ?s ! nat i") (simp_all add: touch_def slot(2) Let_def)
  moreover have "nat i < length (touches ?s)" "nat i \<noteq> 0"
    using slot(1) assms by simp_all
  ultimately show ?thesis
    using slot(2,5) not_none
    by (simp add: touch_A1_def touch_A2_def touch_A3_def touch_A4_def touch_A5_def
        touch_A6_def touch_TX_def)
qed

theorem touch_slot_valid_witness:
  "(1::int) \<le> 3 \<and> (3::int) \<le> 7 \<and>
   subscript (touches (snd (run sample_steps init))) 3 = Inr 3 \<and>
   touches (snd (run sample_steps init)) ! 3 \<noteq> None_slot \<and>
   touches (snd (run sample_steps init)) ! 0 = None_slot \<and>
   (\<exists>b cs s'. touch board_at_rest 3 (snd (run sample_steps init)) = Inr (b, cs, s'))"
  using touch_slot_valid [of 3 sample_steps board_at_rest] by simp

text \<open>
  C10. A read of the valid slot \<open>i\<close> that returns leaves the entry of every other
  slot as it was, in particular that of any other valid slot \<open>j\<close> (its pin, or its
  \<^verbatim>\<open>TouchIn\<close> with its threshold); it leaves the accumulated adjustment and the stored
  tap mode as they were, too.
\<close>

theorem touch_frame:
  assumes "1 \<le> i" and "i \<le> 7" and "1 \<le> j" and "j \<le> 7" and "i \<noteq> j"
    and "touch hw i s = Inr (b, cs, s')"
  shows "touches s' ! nat j = touches s ! nat j \<and>
         touches s' = (touches s)[nat i := touches s' ! nat i] \<and>
         touch_threshold_adjustment s' = touch_threshold_adjustment s \<and>
         detect_taps s' = detect_taps s"
proof -
  from assms(6) obtain k p where sub: "subscript (touches s) i = Inr k"
    and upd: "touches s' = (touches s)[k := touches s' ! k]"
    and rest: "touch_threshold_adjustment s' = touch_threshold_adjustment s"
      "detect_taps s' = detect_taps s"
    by (rule touch_Inr)
  from sub assms(1) have k: "k = nat i"
    by (simp add: subscript_def split: if_splits)
  from assms(1,3,5) have ne: "nat i \<noteq> nat j" by simp
  have "touches s' ! nat j = (touches s)[nat i := touches s' ! nat i] ! nat j"
    using upd k by simp
  also have "\<dots> = touches s ! nat j"
    using ne by simp
  finally show ?thesis using upd k rest by simp
qed

theorem touch_frame_witness:
  "(1::int) \<le> 3 \<and> (3::int) \<le> 7 \<and> (1::int) \<le> 5 \<and> (5::int) \<le> 7 \<and> (3::int) \<noteq> 5 \<and>
   touch board_at_rest 3 (snd init) =
     Inr (False, [TouchIn_new A3, TouchIn_set_threshold A3 1100, TouchIn_get_value A3], A3_bound) \<and>
   touches A3_bound ! 5 = touches (snd init) ! 5 \<and>
   touch_threshold_adjustment A3_bound = touch_threshold_adjustment (snd init) \<and>
   detect_taps A3_bound = detect_taps (snd init)"
  using touch_A3_first
    touch_frame [of 3 5 board_at_rest "snd init" False
      "[TouchIn_new A3, TouchIn_set_threshold A3 1100, TouchIn_get_value A3]" A3_bound]
  by simp

end
